theory Spec2Isabelle
  imports Main "HOL-Library.Word" "HOL-Library.List_Lexorder" "HOL-Library.Product_Lexorder"
begin

section \<open>Programs with state, exceptions and possible divergence\<close>

text \<open>
  The Python code threads mutable state through callbacks (the cached predicate is passed
  to \<open>linear_reduce\<close>, which passes a closure to \<open>find_integer\<close>), may raise, and has
  \<open>while\<close> loops whose termination depends on the callback. A computation is therefore a
  function from a state to \<open>None\<close> (it never returns), \<open>Some (Inl e)\<close> (it raised \<open>e\<close>) or
  \<open>Some (Inr (a, s'))\<close> (it returned \<open>a\<close> in state \<open>s'\<close>).
\<close>

datatype error = ValueError | IndexError | ReError

type_synonym ('s, 'a) prog = "'s \<Rightarrow> (error + 'a \<times> 's) option"

definition pret :: "'a \<Rightarrow> ('s, 'a) prog" where
  "pret a = (\<lambda>s. Some (Inr (a, s)))"

definition praise :: "error \<Rightarrow> ('s, 'a) prog" where
  "praise e = (\<lambda>s. Some (Inl e))"

definition pbind :: "('s, 'a) prog \<Rightarrow> ('a \<Rightarrow> ('s, 'b) prog) \<Rightarrow> ('s, 'b) prog" where
  "pbind m k = (\<lambda>s. case m s of None \<Rightarrow> None | Some (Inl e) \<Rightarrow> Some (Inl e)
                     | Some (Inr (a, s')) \<Rightarrow> k a s')"

text \<open>
  A \<open>while\<close> loop: the body is run on the loop variables; \<open>Inl\<close> carries the variables
  of the next iteration, \<open>Inr\<close> is the exit of the loop (its condition failing, a
  \<open>break\<close> or a \<open>return\<close>). A loop that runs forever is \<open>None\<close>.
\<close>

partial_function (option) ploop ::
  "('a \<Rightarrow> 's \<Rightarrow> (error + ('a + 'b) \<times> 's) option) \<Rightarrow> 'a \<Rightarrow> 's \<Rightarrow> (error + 'b \<times> 's) option" where
  "ploop body a s =
     (case body a s of None \<Rightarrow> None
      | Some (Inl e) \<Rightarrow> Some (Inl e)
      | Some (Inr (Inl a', s')) \<Rightarrow> ploop body a' s'
      | Some (Inr (Inr b, s')) \<Rightarrow> Some (Inr (b, s')))"


section \<open>sequencepasses.py\<close>

subsection \<open>find_integer\<close>

text \<open>\<open>for i in range(1, 5): if not f(i): return i - 1\<close>; \<open>None\<close> when the scan falls through.\<close>

fun scan_small :: "(nat \<Rightarrow> ('s, bool) prog) \<Rightarrow> nat list \<Rightarrow> ('s, nat option) prog" where
  "scan_small f [] = pret None"
| "scan_small f (i # rest) =
     pbind (f i) (\<lambda>b. if \<not> b then pret (Some (i - 1)) else scan_small f rest)"

text \<open>\<open>while f(hi): lo = hi; hi *= 2\<close>\<close>

definition probe_upwards :: "(nat \<Rightarrow> ('s, bool) prog) \<Rightarrow> nat \<times> nat \<Rightarrow> ('s, nat \<times> nat) prog" where
  "probe_upwards f =
     ploop (\<lambda>(lo, hi). pbind (f hi) (\<lambda>b. pret (if b then Inl (hi, hi * 2) else Inr (lo, hi))))"

text \<open>\<open>while lo + 1 < hi: mid = (lo + hi) // 2; if f(mid): lo = mid else: hi = mid\<close>, then \<open>return lo\<close>\<close>

definition binary_search :: "(nat \<Rightarrow> ('s, bool) prog) \<Rightarrow> nat \<times> nat \<Rightarrow> ('s, nat) prog" where
  "binary_search f =
     ploop (\<lambda>(lo, hi).
       if lo + 1 < hi then
         (let mid = (lo + hi) div 2 in
          pbind (f mid) (\<lambda>b. pret (Inl (if b then (mid, hi) else (lo, mid)))))
       else pret (Inr lo))"

definition find_integer :: "(nat \<Rightarrow> ('s, bool) prog) \<Rightarrow> ('s, nat) prog" where
  "find_integer f =
     pbind (scan_small f [1, 2, 3, 4]) (\<lambda>r. case r of
         Some n \<Rightarrow> pret n
       | None \<Rightarrow> pbind (probe_upwards f (4, 5)) (binary_search f))"

text \<open>
  A pure boolean function run as a callback that records every argument it is invoked
  with, in order: the state is the list of invocations so far.
\<close>

definition logged :: "('a \<Rightarrow> bool) \<Rightarrow> 'a \<Rightarrow> ('a list, bool) prog" where
  "logged f k = (\<lambda>log. Some (Inr (f k, log @ [k])))"

text \<open>A boolean function on the naturals that never goes from false back to true.\<close>

definition nonincreasing :: "(nat \<Rightarrow> bool) \<Rightarrow> bool" where
  "nonincreasing f = (\<forall>a b. a \<le> b \<longrightarrow> f b \<longrightarrow> f a)"

subsection \<open>linear_reduce\<close>

text \<open>\<open>del xs[n]\<close> for an index in range.\<close>

definition del_at :: "'a list \<Rightarrow> nat \<Rightarrow> 'a list" where
  "del_at xs n = take n xs @ drop (Suc n) xs"

text \<open>
  \<open>for offset in [2, 3]\<close>: the first accepted candidate replaces the sequence and leaves
  the \<open>for\<close> loop; the result is the sequence after the loop.
\<close>

fun try_offsets ::
  "('a list \<Rightarrow> ('s, bool) prog) \<Rightarrow> nat \<Rightarrow> 'a list \<Rightarrow> nat list \<Rightarrow> ('s, 'a list) prog" where
  "try_offsets predicate i sequence [] = pret sequence"
| "try_offsets predicate i sequence (offset # rest) =
     (if i + offset \<le> length sequence then
        (let attempt = take i sequence @ drop (i + offset) sequence in
         pbind (predicate attempt) (\<lambda>b.
           if b then pret attempt else try_offsets predicate i sequence rest))
      else try_offsets predicate i sequence rest)"

text \<open>
  One iteration of the \<open>while i < len(sequence)\<close> loop on the loop variables
  \<open>(i, sequence)\<close>. The \<open>break\<close> after an accepted pair deletion leaves the \<open>while\<close>
  loop, so the function returns the candidate at once.
\<close>

definition linear_reduce_body ::
  "('a list \<Rightarrow> ('s, bool) prog) \<Rightarrow> nat \<times> 'a list \<Rightarrow> ('s, (nat \<times> 'a list) + 'a list) prog" where
  "linear_reduce_body predicate = (\<lambda>(i, sequence).
     if i < length sequence then
       (let prev = sequence; prefix = take i sequence in
        pbind (find_integer (\<lambda>k.
                 if i + k \<le> length sequence then predicate (prefix @ drop (i + k) sequence)
                 else pret False))
          (\<lambda>n.
        pbind (if n > 0 then pret (prefix @ drop (i + n) sequence)
               else try_offsets predicate i sequence [2, 3])
          (\<lambda>sequence.
        pbind (if i + 2 < length sequence then
                 (let attempt = del_at (del_at sequence (i + 2)) i in
                  pbind (predicate attempt) (\<lambda>b. pret (if b then Some attempt else None)))
               else pret None)
          (\<lambda>broke. case broke of
              Some attempt \<Rightarrow> pret (Inr attempt)
            | None \<Rightarrow>
                pret (Inl (if length prev = length sequence then i + 1 else max 0 (i - 1),
                           sequence))))))
     else pret (Inr sequence))"

definition linear_reduce :: "'a list \<Rightarrow> ('a list \<Rightarrow> ('s, bool) prog) \<Rightarrow> ('s, 'a list) prog" where
  "linear_reduce sequence predicate = ploop (linear_reduce_body predicate) (0, sequence)"


section \<open>reducer.py\<close>

subsection \<open>Byte strings, the sort key and the fingerprint\<close>

text \<open>
  Python \<open>bytes\<close> are lists of 8-bit words; their comparison is the lexicographic one
  on unsigned byte values, and tuples compare lexicographically, which is what the order
  on lists and on pairs imported above computes.
\<close>

type_synonym byte = "8 word"
type_synonym bytes = "byte list"

definition sort_key_bytes :: "bytes \<Rightarrow> nat \<times> bytes" where
  "sort_key_bytes b = (length b, b)"

text \<open>
  \<open>cache_key\<close> is the leading 64 bits of the SHA-1 digest (\<open>hashlib\<close>, which is not part
  of the repository). The reducer only ever compares fingerprints, so the fingerprint
  function is a parameter \<open>ck\<close> of everything that uses the cache, and results hold for
  every such function, colliding or not.
\<close>

text \<open>An injective stand-in for the fingerprint, used at concrete inputs.\<close>

fun bytes_code :: "bytes \<Rightarrow> nat" where
  "bytes_code [] = 0"
| "bytes_code (b # bs) = 1 + unat b + 256 * bytes_code bs"

subsection \<open>The reducer object\<close>

text \<open>
  The fields of \<open>Reducer\<close>: \<open>current\<close>, the external predicate \<open>self.__predicate\<close> (a total
  deterministic function of the byte string, as the specification assumes), and the
  cache \<open>self.__cache\<close>, a dictionary from fingerprints to verdicts. \<open>ext_calls\<close> is not a
  field of the class: it records, in order, the arguments with which the external
  predicate has been invoked, so that invocations can be counted. The \<open>debug\<close> flag only
  controls printing and \<open>__exploration_queue\<close> is never read; both are left out.
\<close>

record reducer =
  current :: bytes
  ext_predicate :: "bytes \<Rightarrow> bool"
  cache :: "nat \<rightharpoonup> bool"
  ext_calls :: "bytes list"

text \<open>\<open>Reducer.__init__\<close>: the predicate is called on the initial value; a false verdict raises.\<close>

definition init :: "(bytes \<Rightarrow> nat) \<Rightarrow> (bytes \<Rightarrow> bool) \<Rightarrow> bytes \<Rightarrow> error + reducer" where
  "init ck predicate initial =
     (let result = predicate initial in
      if \<not> result then Inl ValueError
      else Inr \<lparr>current = initial, ext_predicate = predicate,
                cache = [ck initial \<mapsto> result], ext_calls = [initial]\<rparr>)"

text \<open>\<open>Reducer.predicate\<close>: the verdict and the reducer after the call.\<close>

definition predicate :: "(bytes \<Rightarrow> nat) \<Rightarrow> bytes \<Rightarrow> reducer \<Rightarrow> bool \<times> reducer" where
  "predicate ck value r =
     (let key = ck value in
      case cache r key of
        Some verdict \<Rightarrow> (verdict, r)
      | None \<Rightarrow>
          (let result = ext_predicate r value;
               r1 = r\<lparr>ext_calls := ext_calls r @ [value]\<rparr>;
               r2 = (if result \<and> sort_key_bytes value < sort_key_bytes (current r1)
                     then r1\<lparr>current := value\<rparr> else r1)
           in (result, r2\<lparr>cache := (cache r2)(key \<mapsto> result)\<rparr>)))"

text \<open>\<open>Reducer.attempt\<close>: \<open>and\<close> does not call the predicate when the value is no shrink.\<close>

definition attempt :: "(bytes \<Rightarrow> nat) \<Rightarrow> bytes \<Rightarrow> reducer \<Rightarrow> bool \<times> reducer" where
  "attempt ck value r =
     (if sort_key_bytes value < sort_key_bytes (current r) then predicate ck value r else (False, r))"


text \<open>
  No verdict \<open>True\<close> is stored under the fingerprint of a byte string that is smaller than
  \<open>current\<close>. Construction establishes this and the cached predicate keeps it as long as
  no submitted value shares its fingerprint with a different, smaller byte string.
\<close>

definition no_stale_accept :: "(bytes \<Rightarrow> nat) \<Rightarrow> reducer \<Rightarrow> bool" where
  "no_stale_accept ck r =
     (\<forall>v. cache r (ck v) = Some True \<longrightarrow> \<not> sort_key_bytes v < sort_key_bytes (current r))"

text \<open>Every byte string below \<open>bound\<close> that has the fingerprint of \<open>v\<close> is \<open>v\<close> itself.\<close>

definition no_collision_below :: "(bytes \<Rightarrow> nat) \<Rightarrow> bytes \<Rightarrow> bytes \<Rightarrow> bool" where
  "no_collision_below ck bound v =
     (\<forall>w. ck w = ck v \<longrightarrow> sort_key_bytes w < sort_key_bytes bound \<longrightarrow> w = v)"

subsection \<open>find_paired_brackets\<close>

text \<open>
  The scan over \<open>enumerate(target)\<close> with the list of results and the stack (its top is
  the last element). \<open>bracket\<close> is a two-byte string in every call; it is unpacked into
  \<open>(left, right)\<close>. The \<open>target=None\<close> default is resolved by the caller.
\<close>

fun scan_brackets ::
  "byte \<Rightarrow> byte \<Rightarrow> (nat \<times> byte) list \<Rightarrow> (nat \<times> nat) list \<Rightarrow> nat list \<Rightarrow> (nat \<times> nat) list" where
  "scan_brackets left right [] results stack = results"
| "scan_brackets left right ((i, c) # rest) results stack =
     (if c = left then scan_brackets left right rest results (stack @ [i])
      else if c = right then
        (if stack \<noteq> [] then
           scan_brackets left right rest (results @ [(last stack, i)]) (butlast stack)
         else scan_brackets left right rest results stack)
      else scan_brackets left right rest results stack)"

definition find_paired_brackets :: "byte \<times> byte \<Rightarrow> bytes \<Rightarrow> (nat \<times> nat) list" where
  "find_paired_brackets bracket target =
     (case bracket of (left, right) \<Rightarrow>
        scan_brackets left right (enumerate 0 target) [] [])"


subsection \<open>Auxiliary notions for the cache properties\<close>


text \<open>The reducer built from \<open>b"ab"\<close> and the predicate that accepts everything.\<close>

definition reducer_ab :: reducer where
  "reducer_ab = \<lparr>current = [97, 98], ext_predicate = (\<lambda>v. True),
                 cache = [bytes_code [97, 98] \<mapsto> True], ext_calls = [[97, 98]]\<rparr>"

text \<open>
  A reducer whose cache holds \<open>True\<close> under the fingerprint \<open>0\<close>, to be used with the
  constant fingerprint function, under which every byte string collides with every other.
\<close>

definition reducer_collided :: reducer where
  "reducer_collided = \<lparr>current = [97, 98], ext_predicate = (\<lambda>v. False),
                       cache = [0 \<mapsto> True], ext_calls = [[97, 98]]\<rparr>"

text \<open>A pair of indices below \<open>n\<close>, in order, with the open byte at the first and the close byte at the second.\<close>

definition good_pair :: "byte \<Rightarrow> byte \<Rightarrow> bytes \<Rightarrow> nat \<Rightarrow> nat \<times> nat \<Rightarrow> bool" where
  "good_pair l r T n p = (fst p < snd p \<and> snd p < n \<and> T ! fst p = l \<and> T ! snd p = r)"

text \<open>
  An element \<open>x\<close> of the input has been considered for removal when some candidate
  submitted to the predicate omits it, or when it is absent from the result.
\<close>

definition considered :: "'a list list \<Rightarrow> 'a list \<Rightarrow> 'a \<Rightarrow> bool" where
  "considered log result x = (list_ex (\<lambda>c. x \<notin> set c) log \<or> x \<notin> set result)"

subsection \<open>Steps of a program\<close>

text \<open>A total step that cannot raise, the result of a pure computation that may have
  raised, and a read of \<open>self.current\<close>.\<close>

definition pstep :: "('s \<Rightarrow> 'a \<times> 's) \<Rightarrow> ('s, 'a) prog" where
  "pstep f = (\<lambda>s. Some (Inr (f s)))"

definition pof :: "error + 'a \<Rightarrow> ('s, 'a) prog" where
  "pof x = (case x of Inl e \<Rightarrow> praise e | Inr a \<Rightarrow> pret a)"

definition get_current :: "(reducer, bytes) prog" where
  "get_current = (\<lambda>r. Some (Inr (current r, r)))"

subsection \<open>Operations on byte strings\<close>

text \<open>
  \<open>bytes.split(sep)\<close> for a non-empty separator: a left-to-right scan for
  non-overlapping occurrences; \<open>acc\<close> is the part read since the last occurrence. An
  empty separator raises \<open>ValueError\<close>.
\<close>

fun split_scan :: "bytes \<Rightarrow> bytes \<Rightarrow> bytes \<Rightarrow> bytes list" where
  "split_scan sep acc [] = [acc]"
| "split_scan sep acc (c # cs) =
     (if sep \<noteq> [] \<and> take (length sep) (c # cs) = sep
      then acc # split_scan sep [] (drop (length sep) (c # cs))
      else split_scan sep (acc @ [c]) cs)"

definition py_split :: "bytes \<Rightarrow> bytes \<Rightarrow> error + bytes list" where
  "py_split s sep = (if sep = [] then Inl ValueError else Inr (split_scan sep [] s))"

text \<open>\<open>sep.join(parts)\<close>\<close>

fun py_join :: "bytes \<Rightarrow> bytes list \<Rightarrow> bytes" where
  "py_join sep [] = []"
| "py_join sep [p] = p"
| "py_join sep (p # q # ps) = p @ sep @ py_join sep (q # ps)"

subsection \<open>reduce_by_delimiter\<close>

text \<open>
  The delimiter is a byte string here; \<open>to_bs\<close> turns the byte a caller passes into the
  one-byte string. \<open>prev is not self.current\<close> compares object identity: \<open>current\<close> is only
  ever replaced by a different, strictly smaller byte string, so the comparison of the
  values gives the same answer.
\<close>

definition reduce_by_delimiter :: "(bytes \<Rightarrow> nat) \<Rightarrow> bytes \<Rightarrow> (reducer, bool) prog" where
  "reduce_by_delimiter ck delimiter0 =
     pbind get_current (\<lambda>prev.
     pbind (pof (py_split prev delimiter0)) (\<lambda>parts.
     pbind (pstep (attempt ck (py_join [] parts))) (\<lambda>joined.
     let delimiter = (if joined then [] else delimiter0) in
     pbind (pstep (attempt ck (py_join delimiter (filter (\<lambda>p. p \<noteq> []) parts)))) (\<lambda>cleaned.
     pbind (if cleaned then pbind get_current (\<lambda>cur. pof (py_split cur delimiter))
            else pret parts) (\<lambda>parts.
     pbind (linear_reduce (rev parts)
              (\<lambda>ls. pstep (predicate ck (py_join delimiter (rev ls))))) (\<lambda>reduced.
     pbind get_current (\<lambda>cur. pret (prev \<noteq> cur))))))))"

text \<open>A program that returns normally from every state; one that moreover returns \<open>False\<close>.\<close>

definition returns :: "('s, 'a) prog \<Rightarrow> bool" where
  "returns p = (\<forall>s. \<exists>a s'. p s = Some (Inr (a, s')))"

definition returns_false :: "('s, bool) prog \<Rightarrow> bool" where
  "returns_false p = (\<forall>s. \<exists>s'. p s = Some (Inr (False, s')))"



subsection \<open>Local variables of a closure\<close>

text \<open>
  \<open>try_remove\<close> is a closure that updates the variable \<open>retained\<close> of the enclosing
  call. A program that uses such a variable runs on pairs of the reducer and the
  variable; \<open>with_local\<close> runs it from an initial value and drops the variable at the end.
\<close>

definition with_local :: "'l \<Rightarrow> ('s \<times> 'l, 'a) prog \<Rightarrow> ('s, 'a) prog" where
  "with_local l p = (\<lambda>s. case p (s, l) of None \<Rightarrow> None | Some (Inl e) \<Rightarrow> Some (Inl e)
                        | Some (Inr (a, (s', l'))) \<Rightarrow> Some (Inr (a, s')))"

subsection \<open>More operations on byte strings\<close>

text \<open>\<open>s.replace(old, new)\<close>: non-overlapping occurrences from the left; an empty \<open>old\<close>
  matches before every byte and at the end.\<close>

fun replace_scan :: "bytes \<Rightarrow> bytes \<Rightarrow> bytes \<Rightarrow> bytes" where
  "replace_scan old new [] = []"
| "replace_scan old new (c # cs) =
     (if old \<noteq> [] \<and> take (length old) (c # cs) = old
      then new @ replace_scan old new (drop (length old) (c # cs))
      else c # replace_scan old new cs)"

definition py_replace :: "bytes \<Rightarrow> bytes \<Rightarrow> bytes \<Rightarrow> bytes" where
  "py_replace s old new =
     (if old = [] then new @ concat (map (\<lambda>c. c # new) s) else replace_scan old new s)"

text \<open>\<open>s.index(sub, start)\<close>; \<open>None\<close> stands for the \<open>ValueError\<close> that every caller catches.\<close>

definition py_index :: "bytes \<Rightarrow> bytes \<Rightarrow> nat \<Rightarrow> nat option" where
  "py_index s sub start =
     find (\<lambda>k. take (length sub) (drop k s) = sub) [start..<Suc (length s) - length sub]"

text \<open>ASCII text as bytes, for the literals of the source.\<close>

definition ascii :: "string \<Rightarrow> bytes" where
  "ascii s = map (\<lambda>c. of_nat (of_char c)) s"

subsection \<open>The regular expression library\<close>

text \<open>
  Python's \<open>re\<close> module is not part of the repository. Its two entry points the reducer
  uses are parameters: \<open>finditer\<close> gives the matches of a pattern in a byte string, in
  order, each with its start, its end and its groups from group 1 on; \<open>sub\<close> replaces
  the matches by a template and may raise \<open>re.error\<close> on a bad template. The flag says
  whether the pattern was compiled with \<open>re.MULTILINE\<close>. Group 0 of a match is the slice
  of the subject between its start and its end.
\<close>

record re_match =
  m_start :: nat
  m_end :: nat
  m_groups :: "bytes list"

record re_lib =
  re_finditer :: "bytes \<Rightarrow> bool \<Rightarrow> bytes \<Rightarrow> re_match list"
  re_sub :: "bytes \<Rightarrow> bool \<Rightarrow> bytes \<Rightarrow> bytes \<Rightarrow> error + bytes"

definition group0 :: "bytes \<Rightarrow> re_match \<Rightarrow> bytes" where
  "group0 subject m = take (m_end m - m_start m) (drop (m_start m) subject)"

text \<open>\<open>m.group(k)\<close> for \<open>k \<ge> 1\<close>; a group the pattern does not have raises \<open>IndexError\<close>.\<close>

definition group :: "re_match \<Rightarrow> nat \<Rightarrow> error + bytes" where
  "group m k = (if 0 < k \<and> k \<le> length (m_groups m) then Inr (m_groups m ! (k - 1))
                else Inl IndexError)"

text \<open>\<open>subject[:m.start()] + subject[m.end():]\<close>\<close>

definition cut_match :: "bytes \<Rightarrow> re_match \<Rightarrow> bytes" where
  "cut_match subject m = take (m_start m) subject @ drop (m_end m) subject"

subsection \<open>attempt_delete_many_sets\<close>

text \<open>
  A \<open>frozenset\<close> of indices is kept as the list of its elements in decreasing order
  without repetition, which is the second component of the sort key
  \<open>(len(s), sorted(s, reverse=True))\<close>. The sort is descending in that key; sets with equal
  keys are equal, so their relative order does not matter.
\<close>

definition frozenset :: "nat list \<Rightarrow> nat list" where
  "frozenset xs = rev (sort (remdups xs))"

definition sort_sets :: "nat list list \<Rightarrow> nat list list" where
  "sort_sets sets = rev (sort_key (\<lambda>s. (length s, s)) sets)"

text \<open>The bytes of \<open>target\<close> at the retained indices that are not to be removed.\<close>

definition restrict_bytes :: "bytes \<Rightarrow> nat set \<Rightarrow> nat set \<Rightarrow> bytes" where
  "restrict_bytes target retained to_remove =
     map snd (filter (\<lambda>(i, c). i \<in> retained \<and> i \<notin> to_remove) (enumerate 0 target))"

definition try_remove ::
  "(bytes \<Rightarrow> nat) \<Rightarrow> nat list list \<Rightarrow> bytes \<Rightarrow> nat \<Rightarrow> nat \<Rightarrow> (reducer \<times> nat set, bool) prog" where
  "try_remove ck sets target i j = (\<lambda>(r, retained).
     if j > length sets then Some (Inr (False, (r, retained)))
     else
       (let to_remove = \<Union> (set ` set (take (j - i) (drop i sets))) in
        if to_remove \<inter> retained = {} then Some (Inr (True, (r, retained)))
        else
          (let (result, r') = predicate ck (restrict_bytes target retained to_remove) r in
           Some (Inr (result, (r', if result then retained - to_remove else retained))))))"

text \<open>The function returns \<open>True\<close> on the fast path and \<open>None\<close> otherwise; \<open>False\<close> stands for \<open>None\<close>.\<close>

definition attempt_delete_many_sets :: "(bytes \<Rightarrow> nat) \<Rightarrow> nat list list \<Rightarrow> (reducer, bool) prog" where
  "attempt_delete_many_sets ck sets0 =
     pbind get_current (\<lambda>target.
     let sets = sort_sets (map frozenset sets0) in
     with_local {0..<length target}
       (pbind (try_remove ck sets target 0 (length sets)) (\<lambda>all_at_once.
        if all_at_once then pret True
        else pbind (ploop (\<lambda>i.
                      if i < length sets then
                        pbind (find_integer (\<lambda>t. try_remove ck sets target i (i + t)))
                          (\<lambda>k. pret (Inl (i + (k + 1))))
                      else pret (Inr ())) 0)
               (\<lambda>u. pret False))))"

subsection \<open>The passes\<close>

text \<open>A \<open>for\<close> loop without \<open>break\<close> whose body's result is not used.\<close>

fun pforeach :: "'a list \<Rightarrow> ('a \<Rightarrow> ('s, 'b) prog) \<Rightarrow> ('s, unit) prog" where
  "pforeach [] body = pret ()"
| "pforeach (x # xs) body = pbind (body x) (\<lambda>u. pforeach xs body)"

text \<open>\<open>BRACKETS = [b"{}", b"()", b"[]"]\<close>, each unpacked into its two bytes.\<close>

definition BRACKETS :: "(byte \<times> byte) list" where
  "BRACKETS = [(123, 125), (40, 41), (91, 93)]"

text \<open>\<open>range(i + 1, j)\<close> for each pair \<open>(i, j)\<close>\<close>

definition interiors :: "(nat \<times> nat) list \<Rightarrow> nat list list" where
  "interiors pairs = map (\<lambda>(i, j). [i + 1..<j]) pairs"

definition remove_byte :: "(bytes \<Rightarrow> nat) \<Rightarrow> byte \<Rightarrow> (reducer, bool) prog" where
  "remove_byte ck c =
     pbind get_current (\<lambda>cur. pstep (attempt ck (py_replace cur [c] [])))"

definition reduce_by_all_delimiters :: "(bytes \<Rightarrow> nat) \<Rightarrow> (reducer, unit) prog" where
  "reduce_by_all_delimiters ck =
     pbind get_current (\<lambda>cur0.
     ploop (\<lambda>delimiters.
       if delimiters \<noteq> [] then
         pbind get_current (\<lambda>cur.
         let b = arg_min_list (\<lambda>c. (count_list cur c, c)) delimiters in
         pbind (reduce_by_delimiter ck [b]) (\<lambda>changed.
         pret (Inl (removeAll b delimiters))))
       else pret (Inr ()))
     (remdups cur0))"

definition kill_strings :: "(bytes \<Rightarrow> nat) \<Rightarrow> (reducer, unit) prog" where
  "kill_strings ck =
     pforeach [39, 34] (\<lambda>c.
       pbind get_current (\<lambda>cur.
       let indices = map fst (filter (\<lambda>(i, b). b = c) (enumerate 0 cur)) in
       attempt_delete_many_sets ck (interiors (zip indices (tl indices)))))"

definition delete_bracket_contents :: "(bytes \<Rightarrow> nat) \<Rightarrow> (reducer, unit) prog" where
  "delete_bracket_contents ck =
     pforeach BRACKETS (\<lambda>brackets.
       pbind get_current (\<lambda>cur.
       pbind (attempt_delete_many_sets ck (interiors (find_paired_brackets brackets cur))) (\<lambda>u.
       reduce_by_delimiter ck [fst brackets])))"

definition normalize_whitespace :: "(bytes \<Rightarrow> nat) \<Rightarrow> re_lib \<Rightarrow> (reducer, unit) prog" where
  "normalize_whitespace ck L =
     pbind (remove_byte ck 13) (\<lambda>u.
     pbind get_current (\<lambda>cur.
     pbind (pof (re_sub L (ascii ''^'' @ [92] @ ascii ''s+'') True [] cur)) (\<lambda>stripped.
     pbind (pstep (predicate ck stripped)) (\<lambda>u.
     pbind get_current (\<lambda>cur.
     pbind (pof (re_sub L ([92] @ ascii ''s+$'') True [] cur)) (\<lambda>stripped.
     pbind (pstep (predicate ck stripped)) (\<lambda>u.
     ploop (\<lambda>u.
       pbind get_current (\<lambda>cur.
       pbind (pstep (attempt ck (py_replace cur [10, 10] [10]))) (\<lambda>again.
       pret (if again then Inl () else Inr ())))) ())))))))"

definition debracket :: "(bytes \<Rightarrow> nat) \<Rightarrow> (reducer, unit) prog" where
  "debracket ck =
     pforeach BRACKETS (\<lambda>b.
       pbind get_current (\<lambda>cur.
       attempt_delete_many_sets ck (map (\<lambda>(i, j). [i, j]) (find_paired_brackets b cur))))"

text \<open>
  \<open>pull_out_braces\<close>: loop variables \<open>(i, braces)\<close>. The candidate is \<open>current\<close> with
  byte \<open>u\<close> set to \<open>;\<close> and byte \<open>v\<close> deleted; an index out of range would raise
  \<open>IndexError\<close>. The assertion that the candidate differs from \<open>current\<close> cannot fail,
  the candidate being one byte shorter.
\<close>

definition pull_out_braces :: "(bytes \<Rightarrow> nat) \<Rightarrow> re_lib \<Rightarrow> (reducer, unit) prog" where
  "pull_out_braces ck L =
     pbind get_current (\<lambda>cur0.
     ploop (\<lambda>(i, braces).
       if i < length braces then
         (case braces ! i of (u, v) \<Rightarrow>
          pbind get_current (\<lambda>cur.
          if \<not> (u < length cur \<and> v < length cur) then praise IndexError
          else
            pbind (pstep (predicate ck (del_at (cur[u := 59]) v))) (\<lambda>accepted.
            if accepted then
              pbind get_current (\<lambda>cur.
              pbind (pof (re_sub L (ascii '';'' @ [92] @ ascii ''s*;'') False [] cur)) (\<lambda>a.
              pbind (pstep (attempt ck a)) (\<lambda>u.
              pbind get_current (\<lambda>cur.
              pbind (pof (re_sub L ([92] @ ascii ''{'' @ [92] @ ascii ''s+'' @ [92] @ ascii ''}'')
                            False [] cur)) (\<lambda>a.
              pbind (pstep (attempt ck a)) (\<lambda>u.
              pbind get_current (\<lambda>cur.
              pret (Inl (i, find_paired_brackets (123, 125) cur)))))))))
            else pret (Inl (i + 1, braces)))))
       else pret (Inr ()))
     (0, find_paired_brackets (123, 125) cur0))"

text \<open>
  \<open>prefix_lines\<close> for one terminator; the result says whether the function has
  returned (no space in \<open>current\<close>), which ends the \<open>for\<close> loop over the terminators.
\<close>

definition prefix_lines_for :: "(bytes \<Rightarrow> nat) \<Rightarrow> byte \<Rightarrow> (reducer, bool) prog" where
  "prefix_lines_for ck terminator =
     pbind get_current (\<lambda>cur0.
     case py_index cur0 [32] 0 of
       None \<Rightarrow> pret True
     | Some i0 \<Rightarrow>
         pbind (ploop (\<lambda>i.
           pbind get_current (\<lambda>cur.
           if i < length cur then
             (let line_end = (case py_index cur [terminator] (i + 1) of
                                None \<Rightarrow> length cur | Some e \<Rightarrow> e) in
              pbind (pstep (attempt ck (take i cur @ drop line_end cur))) (\<lambda>u.
              pbind get_current (\<lambda>cur.
              case py_index cur [32] (i + 1) of
                None \<Rightarrow> pret (Inr ())
              | Some i' \<Rightarrow> pret (Inl i'))))
           else pret (Inr ()))) i0)
         (\<lambda>u. pret False))"

definition prefix_lines :: "(bytes \<Rightarrow> nat) \<Rightarrow> (reducer, unit) prog" where
  "prefix_lines ck =
     pbind (prefix_lines_for ck 10) (\<lambda>returned.
     if returned then pret ()
     else pbind (prefix_lines_for ck 59) (\<lambda>u. pret ()))"

definition strip_re :: "(bytes \<Rightarrow> nat) \<Rightarrow> re_lib \<Rightarrow> bytes \<Rightarrow> (reducer, bool) prog" where
  "strip_re ck L expr =
     pbind get_current (\<lambda>cur.
     attempt_delete_many_sets ck
       (map (\<lambda>m. [m_start m..<m_end m]) (re_finditer L expr False cur)))"

definition remove_comments :: "(bytes \<Rightarrow> nat) \<Rightarrow> re_lib \<Rightarrow> (reducer, unit) prog" where
  "remove_comments ck L =
     pbind (strip_re ck L (ascii ''(#|//)[^'' @ [92] @ ascii ''n]+'' @ [92] @ ascii ''n'')) (\<lambda>u.
     pbind (strip_re ck L (ascii ''/'' @ [92] @ ascii ''*.+'' @ [92] @ ascii ''*/'')) (\<lambda>u.
     pret ()))"

subsection \<open>attempt_typedef_substitutions\<close>

definition typedef_re :: bytes where
  "typedef_re = ascii ''typedef'' @ [92] @ ascii ''s+(.+)'' @ [92] @ ascii ''s+('' @ [92]
                @ ascii ''w+)'' @ [92] @ ascii ''s*;''"

text \<open>
  The innermost loop, on \<open>(i, targets, pumped)\<close>: the occurrence \<open>targets[i]\<close> of the name
  is replaced by the definition; when the predicate accepts, the occurrences are searched
  again in the new text and \<open>i\<close> stays.
\<close>

definition substitute_each ::
  "(bytes \<Rightarrow> nat) \<Rightarrow> re_lib \<Rightarrow> bytes \<Rightarrow> bytes \<Rightarrow> bytes \<Rightarrow> (reducer, bytes) prog" where
  "substitute_each ck L name_re definition pumped0 =
     ploop (\<lambda>(i, targets, pumped).
       if i < length targets then
         (let m = targets ! i;
              att = take (m_start m) pumped @ definition @ drop (m_end m) pumped in
          pbind (pstep (predicate ck att)) (\<lambda>accepted.
          if accepted then pret (Inl (i, re_finditer L name_re False att, att))
          else pret (Inl (i + 1, targets, pumped))))
       else pret (Inr pumped))
     (0, re_finditer L name_re False pumped0, pumped0)"

text \<open>The body of the \<open>for\<close> loop for a typedef not attempted before; the result is the new \<open>pumped\<close>.\<close>

definition use_typedef ::
  "(bytes \<Rightarrow> nat) \<Rightarrow> re_lib \<Rightarrow> bytes \<Rightarrow> re_match \<Rightarrow> (reducer, bytes) prog" where
  "use_typedef ck L pumped typedef =
     (let removed = cut_match pumped typedef in
      pbind (pstep (predicate ck removed)) (\<lambda>gone.
      if gone then pret removed
      else
        pbind (pof (group typedef 2)) (\<lambda>name.
        pbind (pof (group typedef 1)) (\<lambda>definition.
        let name_re = [92, 98] @ name @ [92, 98] in
        pbind (pof (re_sub L name_re False definition removed)) (\<lambda>fully.
        pbind (pstep (predicate ck fully)) (\<lambda>inlined.
        if inlined then pret fully
        else substitute_each ck L name_re definition pumped))))))"

text \<open>The final loop over the typedefs in reverse order, threading \<open>pumped\<close>.\<close>

fun remove_typedefs :: "(bytes \<Rightarrow> nat) \<Rightarrow> bytes \<Rightarrow> re_match list \<Rightarrow> (reducer, bytes) prog" where
  "remove_typedefs ck pumped [] = pret pumped"
| "remove_typedefs ck pumped (typedef # rest) =
     (let att = cut_match pumped typedef in
      pbind (pstep (predicate ck att)) (\<lambda>gone.
      remove_typedefs ck (if gone then att else pumped) rest))"

text \<open>
  The \<open>while True\<close> loop, on \<open>(pumped, attempted)\<close>: the \<open>for\<close> loop skips the matches
  already attempted, handles the first one that is new and breaks; when there is none
  its \<open>else\<close> branch leaves the \<open>while\<close> loop.
\<close>

definition attempt_typedef_substitutions :: "(bytes \<Rightarrow> nat) \<Rightarrow> re_lib \<Rightarrow> (reducer, unit) prog" where
  "attempt_typedef_substitutions ck L =
     pbind get_current (\<lambda>pumped0.
     pbind (ploop (\<lambda>(pumped, attempted).
              case find (\<lambda>m. group0 pumped m \<notin> set attempted)
                        (re_finditer L typedef_re False pumped) of
                None \<Rightarrow> pret (Inr pumped)
              | Some typedef \<Rightarrow>
                  pbind (use_typedef ck L pumped typedef) (\<lambda>pumped'.
                  pret (Inl (pumped', group0 pumped typedef # attempted))))
            (pumped0, [])) (\<lambda>pumped.
     pbind (remove_typedefs ck pumped (rev (re_finditer L typedef_re False pumped))) (\<lambda>u.
     pret ())))"

subsection \<open>normalize_identifiers\<close>

text \<open>
  The identifiers that occur more than once, in the order of their first occurrence
  (the insertion order of the dictionary), then sorted stably by length times count.
\<close>

definition repeated_identifiers :: "bytes list \<Rightarrow> bytes list" where
  "repeated_identifiers names =
     sort_key (\<lambda>t. length t * count_list names t)
       (filter (\<lambda>k. count_list names k > 1) (rev (remdups (rev names))))"

definition normalize_identifiers :: "(bytes \<Rightarrow> nat) \<Rightarrow> re_lib \<Rightarrow> (reducer, unit) prog" where
  "normalize_identifiers ck L =
     pbind get_current (\<lambda>cur0.
     let identifier = [92] @ ascii ''b[A-Za-z_]'' @ [92] @ ascii ''w+'' @ [92] @ ascii ''b'';
         names = map (group0 cur0) (re_finditer L identifier False cur0) in
     pforeach (repeated_identifiers names) (\<lambda>s.
       pbind get_current (\<lambda>cur.
       pbind (pof (py_split cur s)) (\<lambda>parts.
       pbind (pstep (predicate ck (py_join [] parts))) (\<lambda>joined.
       pbind (if joined then pret []
              else linear_reduce s (\<lambda>q. pstep (predicate ck (py_join q parts)))) (\<lambda>delimiter.
       linear_reduce parts (\<lambda>ls. pstep (predicate ck (py_join delimiter ls)))))))))"

subsection \<open>The drivers\<close>

definition reduce_by_bytes :: "(bytes \<Rightarrow> nat) \<Rightarrow> (reducer, bytes) prog" where
  "reduce_by_bytes ck =
     pbind get_current (\<lambda>cur. linear_reduce cur (\<lambda>ls. pstep (predicate ck ls)))"

text \<open>
  One iteration of \<open>while prev is not self.current\<close>: \<open>Inl\<close> when \<open>current\<close> has been
  replaced during the iteration, so that the loop runs again. The first iteration always
  runs, \<open>prev\<close> being \<open>None\<close>.
\<close>

definition reduce_c_like_language :: "(bytes \<Rightarrow> nat) \<Rightarrow> re_lib \<Rightarrow> (reducer, unit) prog" where
  "reduce_c_like_language ck L =
     ploop (\<lambda>u.
       pbind get_current (\<lambda>prev.
       pbind (remove_comments ck L) (\<lambda>u.
       pbind (normalize_whitespace ck L) (\<lambda>u.
       pbind (delete_bracket_contents ck) (\<lambda>u.
       pbind (reduce_by_delimiter ck [59]) (\<lambda>u.
       pbind (reduce_by_delimiter ck [10]) (\<lambda>u.
       pbind (pull_out_braces ck L) (\<lambda>u.
       pbind (debracket ck) (\<lambda>u.
       pbind (kill_strings ck) (\<lambda>u.
       pbind get_current (\<lambda>cur.
       pbind (pstep (attempt ck (py_replace cur [10, 59] [59]))) (\<lambda>u.
       pbind (attempt_typedef_substitutions ck L) (\<lambda>u.
       pbind get_current (\<lambda>cur.
       if prev \<noteq> cur then pret (Inl ())
       else
         pbind (reduce_by_delimiter ck [32]) (\<lambda>u.
         pbind (normalize_identifiers ck L) (\<lambda>u.
         pbind (prefix_lines ck) (\<lambda>u.
         pbind get_current (\<lambda>cur.
         pret (if prev \<noteq> cur then Inl () else Inr ()))))))))))))))))))) ()"

definition reduce :: "(bytes \<Rightarrow> nat) \<Rightarrow> re_lib \<Rightarrow> (reducer, unit) prog" where
  "reduce ck L =
     ploop (\<lambda>u.
       pbind get_current (\<lambda>prev.
       pbind (reduce_c_like_language ck L) (\<lambda>u.
       pbind (reduce_by_all_delimiters ck) (\<lambda>u.
       pbind (reduce_by_bytes ck) (\<lambda>u.
       pbind get_current (\<lambda>cur.
       pret (if prev \<noteq> cur then Inl () else Inr ()))))))) ()"

section \<open>The contract of find_integer\<close>



lemma pbind_logged:
  "pbind (logged f k) g log = g (f k) (log @ [k])"
  by (simp add: pbind_def logged_def)

lemma pbind_pret: "pbind (pret a) g s = g a s"
  by (simp add: pbind_def pret_def)

lemma probe_upwards_unfold:
  "probe_upwards (logged f) (lo, hi) log =
     (if f hi then probe_upwards (logged f) (hi, hi * 2) (log @ [hi])
      else Some (Inr ((lo, hi), log @ [hi])))"
  unfolding probe_upwards_def
  by (subst ploop.simps) (simp add: pbind_logged pret_def)

lemma binary_search_unfold:
  "binary_search (logged f) (lo, hi) log =
     (if lo + 1 < hi then
        (if f ((lo + hi) div 2) then binary_search (logged f) ((lo + hi) div 2, hi) (log @ [(lo + hi) div 2])
         else binary_search (logged f) (lo, (lo + hi) div 2) (log @ [(lo + hi) div 2]))
      else Some (Inr (lo, log)))"
  unfolding binary_search_def
  by (subst ploop.simps) (simp add: pbind_logged pret_def Let_def)

lemma nonincreasing_bound:
  "nonincreasing f \<Longrightarrow> \<not> f (Suc m) \<Longrightarrow> f k \<Longrightarrow> k \<le> m"
  unfolding nonincreasing_def by (meson not_less_eq_eq)

lemma probe_upwards_logged:
  assumes mono: "nonincreasing f" and stop: "\<not> f (Suc m)"
  shows "f lo \<Longrightarrow> lo < hi \<Longrightarrow>
    \<exists>lo' hi' cs. probe_upwards (logged f) (lo, hi) log = Some (Inr ((lo', hi'), log @ cs))
       \<and> f lo' \<and> \<not> f hi' \<and> lo' < hi' \<and> lo \<le> lo' \<and> distinct cs
       \<and> (\<forall>c\<in>set cs. hi \<le> c \<and> (c \<le> lo' \<or> c = hi'))"
proof (induction "Suc m - hi" arbitrary: lo hi log rule: less_induct)
  case less
  show ?case
  proof (cases "f hi")
    case False
    with less.prems show ?thesis
      by (subst probe_upwards_unfold) auto
  next
    case True
    have "hi \<le> m" using nonincreasing_bound[OF mono stop True] .
    moreover have "0 < hi" using less.prems by simp
    ultimately have "Suc m - hi * 2 < Suc m - hi" by arith
    from less.hyps[OF this True, of "log @ [hi]"] \<open>0 < hi\<close>
    obtain lo' hi' cs where
      r: "probe_upwards (logged f) (hi, hi * 2) (log @ [hi]) = Some (Inr ((lo', hi'), (log @ [hi]) @ cs))"
      and p: "f lo'" "\<not> f hi'" "lo' < hi'" "hi \<le> lo'" "distinct cs"
      and b: "\<forall>c\<in>set cs. hi * 2 \<le> c \<and> (c \<le> lo' \<or> c = hi')"
      by auto
    have "probe_upwards (logged f) (lo, hi) log = Some (Inr ((lo', hi'), log @ (hi # cs)))"
      using True r by (subst probe_upwards_unfold) simp
    moreover have "distinct (hi # cs)" using p b \<open>0 < hi\<close> by auto
    moreover have "\<forall>c\<in>set (hi # cs). hi \<le> c \<and> (c \<le> lo' \<or> c = hi')"
      using p b by auto
    moreover have "lo \<le> lo'" using less.prems p by simp
    ultimately show ?thesis using p by blast
  qed
qed

lemma binary_search_logged:
  "f lo \<Longrightarrow> \<not> f hi \<Longrightarrow> lo < hi \<Longrightarrow>
    \<exists>n cs. binary_search (logged f) (lo, hi) log = Some (Inr (n, log @ cs))
       \<and> f n \<and> \<not> f (Suc n) \<and> distinct cs \<and> (\<forall>c\<in>set cs. lo < c \<and> c < hi)"
proof (induction "hi - lo" arbitrary: lo hi log rule: less_induct)
  case less
  let ?mid = "(lo + hi) div 2"
  show ?case
  proof (cases "lo + 1 < hi")
    case False
    with less.prems have "hi = Suc lo" by simp
    with less.prems False show ?thesis
      by (subst binary_search_unfold) simp
  next
    case gap: True
    then have m: "lo < ?mid" "?mid < hi" by arith+
    show ?thesis
    proof (cases "f ?mid")
      case True
      have "hi - ?mid < hi - lo" using m by arith
      from less.hyps[OF this True less.prems(2) m(2), of "log @ [?mid]"]
      obtain n cs where
        r: "binary_search (logged f) (?mid, hi) (log @ [?mid]) = Some (Inr (n, (log @ [?mid]) @ cs))"
        and p: "f n" "\<not> f (Suc n)" "distinct cs" "\<forall>c\<in>set cs. ?mid < c \<and> c < hi"
        by blast
      have "binary_search (logged f) (lo, hi) log = Some (Inr (n, log @ (?mid # cs)))"
        using gap True r by (subst binary_search_unfold) simp
      moreover have "distinct (?mid # cs)" using p by auto
      moreover have "\<forall>c\<in>set (?mid # cs). lo < c \<and> c < hi" using p m by auto
      ultimately show ?thesis using p by blast
    next
      case False
      have "?mid - lo < hi - lo" using m by arith
      from less.hyps[OF this less.prems(1) False m(1), of "log @ [?mid]"]
      obtain n cs where
        r: "binary_search (logged f) (lo, ?mid) (log @ [?mid]) = Some (Inr (n, (log @ [?mid]) @ cs))"
        and p: "f n" "\<not> f (Suc n)" "distinct cs" "\<forall>c\<in>set cs. lo < c \<and> c < ?mid"
        by blast
      have "binary_search (logged f) (lo, hi) log = Some (Inr (n, log @ (?mid # cs)))"
        using gap False r by (subst binary_search_unfold) simp
      moreover have "distinct (?mid # cs)" using p by auto
      moreover have "\<forall>c\<in>set (?mid # cs). lo < c \<and> c < hi" using p m by auto
      ultimately show ?thesis using p by blast
    qed
  qed
qed

lemma find_integer_logged_small:
  assumes a: "\<not> (f 1 \<and> f 2 \<and> f 3 \<and> f 4)"
  shows "\<exists>n calls. find_integer (logged f) [] = Some (Inr (n, calls))
           \<and> (n = 0 \<or> f n) \<and> \<not> f (Suc n) \<and> 0 \<notin> set calls \<and> distinct calls"
proof -
  consider "\<not> f 1" | "f 1" "\<not> f 2" | "f 1" "f 2" "\<not> f 3" | "f 1" "f 2" "f 3" "\<not> f 4"
    using a by blast
  then show ?thesis
  proof cases
    case 1
    then have "find_integer (logged f) [] = Some (Inr (0, [1]))"
      by (simp add: find_integer_def pbind_def logged_def pret_def)
    moreover have "\<not> f (Suc 0)" using 1 by simp
    ultimately show ?thesis by (intro exI[of _ 0] exI[of _ "[1]"]) simp
  next
    case 2
    then have "find_integer (logged f) [] = Some (Inr (1, [1, 2]))"
      by (simp add: find_integer_def pbind_def logged_def pret_def)
    moreover have "\<not> f (Suc 1)" using 2 by (simp add: eval_nat_numeral)
    ultimately show ?thesis using 2 by (intro exI[of _ 1] exI[of _ "[1, 2]"]) simp
  next
    case 3
    then have "find_integer (logged f) [] = Some (Inr (2, [1, 2, 3]))"
      by (simp add: find_integer_def pbind_def logged_def pret_def)
    moreover have "\<not> f (Suc 2)" using 3 by (simp add: eval_nat_numeral)
    ultimately show ?thesis using 3 by (intro exI[of _ 2] exI[of _ "[1, 2, 3]"]) simp
  next
    case 4
    then have "find_integer (logged f) [] = Some (Inr (3, [1, 2, 3, 4]))"
      by (simp add: find_integer_def pbind_def logged_def pret_def)
    moreover have "\<not> f (Suc 3)" using 4 by (simp add: eval_nat_numeral)
    ultimately show ?thesis using 4 by (intro exI[of _ 3] exI[of _ "[1, 2, 3, 4]"]) simp
  qed
qed

lemma find_integer_result:
  assumes True: "f 1 \<and> f 2 \<and> f 3 \<and> f 4"
   and r1: "probe_upwards (logged f) (4, 5) [1, 2, 3, 4] = Some (Inr ((lo, hi), [1, 2, 3, 4] @ cs))"
   and r2: "binary_search (logged f) (lo, hi) ([1, 2, 3, 4] @ cs) = Some (Inr (n, ([1, 2, 3, 4] @ cs) @ ds))"
 shows "find_integer (logged f) [] = Some (Inr (n, [1, 2, 3, 4] @ cs @ ds))"
proof -
  have "scan_small (logged f) [1, 2, 3, 4] [] = Some (Inr (None, [1, 2, 3, 4]))"
    using True by (simp add: pbind_def logged_def pret_def)
  then show ?thesis
    unfolding find_integer_def using r1 r2
    by (simp add: pbind_def pret_def)
qed

lemma find_integer_logged:
  assumes mono: "nonincreasing f" and stop: "\<not> f (Suc m)"
  shows "\<exists>n calls. find_integer (logged f) [] = Some (Inr (n, calls))
           \<and> (n = 0 \<or> f n) \<and> \<not> f (Suc n) \<and> 0 \<notin> set calls \<and> distinct calls"
proof (cases "f 1 \<and> f 2 \<and> f 3 \<and> f 4")
  case False
  then show ?thesis by (rule find_integer_logged_small)
next
  case True
  then have f4: "f 4" by simp
  have "(4::nat) < 5" by simp
  from probe_upwards_logged[OF mono stop f4 this, of "[1, 2, 3, 4]"]
  obtain lo hi cs where
    r1: "probe_upwards (logged f) (4, 5) [1, 2, 3, 4] = Some (Inr ((lo, hi), [1, 2, 3, 4] @ cs))"
    and p1: "f lo" "\<not> f hi" "lo < hi" "4 \<le> lo" "distinct cs"
    and b1: "\<forall>c\<in>set cs. 5 \<le> c \<and> (c \<le> lo \<or> c = hi)"
    by blast
  from binary_search_logged[OF p1(1,2,3), of "[1, 2, 3, 4] @ cs"]
  obtain n ds where
    r2: "binary_search (logged f) (lo, hi) ([1, 2, 3, 4] @ cs) = Some (Inr (n, ([1, 2, 3, 4] @ cs) @ ds))"
    and p2: "f n" "\<not> f (Suc n)" "distinct ds"
    and b2: "\<forall>c\<in>set ds. lo < c \<and> c < hi"
    by blast
  have res: "find_integer (logged f) [] = Some (Inr (n, [1, 2, 3, 4] @ cs @ ds))"
    using True r1 r2 by (rule find_integer_result)
  have disj: "set cs \<inter> set ds = {}"
  proof (rule ccontr)
    assume "set cs \<inter> set ds \<noteq> {}"
    then obtain c where c: "c \<in> set cs" "c \<in> set ds" by blast
    from c(1) b1 have "c \<le> lo \<or> c = hi" by blast
    moreover from c(2) b2 have "lo < c \<and> c < hi" by blast
    ultimately show False by arith
  qed
  have big: "5 \<le> c" if "c \<in> set cs \<union> set ds" for c
  proof -
    from that consider "c \<in> set cs" | "c \<in> set ds" by blast
    then show ?thesis
    proof cases
      case 1 with b1 show ?thesis by blast
    next
      case 2 with b2 have "lo < c" by blast
      with p1(4) show ?thesis by arith
    qed
  qed
  have small: "k \<notin> set cs \<union> set ds" if "k < 5" for k
    using big[of k] that by arith
  have s: "(0::nat) < 5" "(1::nat) < 5" "(2::nat) < 5" "(3::nat) < 5" "(4::nat) < 5" by simp_all
  have "distinct ([1, 2, 3, 4] @ cs @ ds)"
    using p1(5) p2(3) disj small[OF s(2)] small[OF s(3)] small[OF s(4)] small[OF s(5)] by simp
  moreover have "0 \<notin> set ([1, 2, 3, 4] @ cs @ ds)"
    using small[OF s(1)] by simp
  ultimately show ?thesis using res p2 by blast
qed

lemma threshold_unique:
  assumes "nonincreasing f" "f n" "\<not> f (Suc n)"
  shows "f k \<longleftrightarrow> k \<le> n"
  using assms nonincreasing_bound[OF assms(1) assms(3)] unfolding nonincreasing_def by blast

text \<open>
  C1. Let \<open>f\<close> be non-increasing with \<open>f 0\<close> true and false somewhere (at \<open>m + 1\<close>).
  Then \<open>find_integer\<close> returns, and what it returns is the threshold \<open>n\<close> of \<open>f\<close>:
  \<open>f n\<close> holds, \<open>f (n + 1)\<close> does not, and \<open>f k\<close> holds exactly for \<open>k \<le> n\<close>. The
  arguments \<open>f\<close> was invoked with do not contain \<open>0\<close> and contain no argument twice.
\<close>

theorem find_integer_contract:
  assumes "nonincreasing f" and "f 0" and "\<not> f (Suc m)"
  shows "\<exists>n calls. find_integer (logged f) [] = Some (Inr (n, calls))
           \<and> f n \<and> \<not> f (Suc n) \<and> (\<forall>k. f k \<longleftrightarrow> k \<le> n)
           \<and> 0 \<notin> set calls \<and> distinct calls"
proof -
  from find_integer_logged[OF assms(1,3)] obtain n calls where
    r: "find_integer (logged f) [] = Some (Inr (n, calls))"
    and p: "n = 0 \<or> f n" "\<not> f (Suc n)" "0 \<notin> set calls" "distinct calls"
    by blast
  from p(1) assms(2) have fn: "f n" by blast
  have "\<forall>k. f k \<longleftrightarrow> k \<le> n"
    using threshold_unique[OF assms(1) fn p(2)] by blast
  with r fn p show ?thesis by blast
qed

theorem find_integer_contract_witness:
  "nonincreasing (\<lambda>k. k \<le> (7::nat)) \<and> (0::nat) \<le> 7 \<and> \<not> Suc 7 \<le> (7::nat) \<and>
   (\<exists>n calls. find_integer (logged (\<lambda>k. k \<le> (7::nat))) [] = Some (Inr (n, calls))
           \<and> n \<le> 7 \<and> \<not> Suc n \<le> 7 \<and> (\<forall>k. k \<le> 7 \<longleftrightarrow> k \<le> n)
           \<and> 0 \<notin> set calls \<and> distinct calls)"
proof -
  have h1: "nonincreasing (\<lambda>k. k \<le> (7::nat))" by (simp add: nonincreasing_def)
  have h2: "(0::nat) \<le> 7" by simp
  have h3: "\<not> Suc 7 \<le> (7::nat)" by simp
  show ?thesis using h1 h2 h3 find_integer_contract[OF h1 h2 h3] by blast
qed

lemma sort_key_inj: "sort_key_bytes a = sort_key_bytes b \<longleftrightarrow> a = b"
  by (auto simp: sort_key_bytes_def)

lemma predicate_hit: "cache r (ck v) = Some b \<Longrightarrow> predicate ck v r = (b, r)"
  by (simp add: predicate_def)

lemma predicate_miss:
  "cache r (ck v) = None \<Longrightarrow>
   predicate ck v r =
     (ext_predicate r v,
      r\<lparr>current := (if ext_predicate r v \<and> sort_key_bytes v < sort_key_bytes (current r) then v else current r),
        cache := (cache r)(ck v \<mapsto> ext_predicate r v),
        ext_calls := ext_calls r @ [v]\<rparr>)"
  by (simp add: predicate_def Let_def)

lemma predicate_current:
  "current (snd (predicate ck v r)) =
     (if cache r (ck v) = None \<and> ext_predicate r v \<and> sort_key_bytes v < sort_key_bytes (current r)
      then v else current r)"
  by (cases "cache r (ck v)") (simp_all add: predicate_hit predicate_miss)

lemma predicate_nonincreasing:
  "sort_key_bytes (current (snd (predicate ck v r))) \<le> sort_key_bytes (current r)"
  using less_imp_le[of "sort_key_bytes v" "sort_key_bytes (current r)"]
  by (simp add: predicate_current)

lemma predicate_cache:
  "cache (snd (predicate ck v r)) =
     (case cache r (ck v) of None \<Rightarrow> (cache r)(ck v \<mapsto> ext_predicate r v) | Some b \<Rightarrow> cache r)"
  by (cases "cache r (ck v)") (simp_all add: predicate_hit predicate_miss)


lemma predicate_ext_predicate:
  "ext_predicate (snd (predicate ck v r)) = ext_predicate r"
  by (cases "cache r (ck v)") (simp_all add: predicate_hit predicate_miss)

lemma predicate_fst:
  "fst (predicate ck v r) = (case cache r (ck v) of None \<Rightarrow> ext_predicate r v | Some b \<Rightarrow> b)"
  by (cases "cache r (ck v)") (simp_all add: predicate_hit predicate_miss)





lemma predicate_no_stale:
  assumes inv: "no_stale_accept ck r" and nc: "no_collision_below ck (current r) v"
  shows "no_stale_accept ck (snd (predicate ck v r))"
proof (cases "cache r (ck v)")
  case (Some b)
  with inv show ?thesis by (simp add: predicate_hit)
next
  case None
  show ?thesis
    unfolding no_stale_accept_def
  proof (intro allI impI)
    fix w
    assume c: "cache (snd (predicate ck v r)) (ck w) = Some True"
    have le: "sort_key_bytes (current (snd (predicate ck v r))) \<le> sort_key_bytes (current r)"
      by (rule predicate_nonincreasing)
    show "\<not> sort_key_bytes w < sort_key_bytes (current (snd (predicate ck v r)))"
    proof (cases "ck w = ck v")
      case False
      with c None have "cache r (ck w) = Some True" by (simp add: predicate_cache)
      with inv have "\<not> sort_key_bytes w < sort_key_bytes (current r)" unfolding no_stale_accept_def by blast
      with le show ?thesis by auto
    next
      case True
      with c None have e: "ext_predicate r v" by (simp add: predicate_cache)
      show ?thesis
      proof
        assume l: "sort_key_bytes w < sort_key_bytes (current (snd (predicate ck v r)))"
        with le have "sort_key_bytes w < sort_key_bytes (current r)" by auto
        with nc True have "w = v" unfolding no_collision_below_def by blast
        with l None e show False by (simp add: predicate_current split: if_splits)
      qed
    qed
  qed
qed

section \<open>The cached predicate\<close>















lemma reducer_ab_init: "init bytes_code (\<lambda>v. True) [97, 98] = Inr reducer_ab"
  by (simp add: init_def reducer_ab_def)




text \<open>
  C10. When the fingerprint of the submitted value is already in the cache, the cached
  predicate returns the stored verdict and the reducer is unchanged: \<open>current\<close>, the cache
  and the log of external invocations. The witness is a collision: the stored verdict is
  true and the value is strictly smaller than \<open>current\<close>, and \<open>current\<close> is not replaced.
\<close>

theorem cache_hit_frame:
  "cache r (ck v) = Some verdict \<Longrightarrow> predicate ck v r = (verdict, r)"
  by (rule predicate_hit)

theorem cache_hit_frame_witness:
  "cache reducer_collided ((\<lambda>v. 0) [97]) = Some True
   \<and> sort_key_bytes [97] < sort_key_bytes (current reducer_collided)
   \<and> predicate (\<lambda>v. 0) [97] reducer_collided = (True, reducer_collided)"
proof -
  have h: "cache reducer_collided ((\<lambda>v. 0) [97]) = Some True"
    by (simp add: reducer_collided_def)
  have "sort_key_bytes [97] < sort_key_bytes (current reducer_collided)"
    by (simp add: reducer_collided_def sort_key_bytes_def)
  with h cache_hit_frame[OF h] show ?thesis by blast
qed

text \<open>
  C7. Construction raises if and only if the external predicate rejects the initial
  input, and the error is \<open>ValueError\<close>. When it succeeds, \<open>current\<close> is the initial input
  and the cache holds exactly the verdict \<open>True\<close> under the fingerprint of the initial input.
\<close>

theorem init_contract:
  "((\<exists>e. init ck p initial = Inl e) \<longleftrightarrow> \<not> p initial)
   \<and> (\<not> p initial \<longrightarrow> init ck p initial = Inl ValueError)
   \<and> (\<forall>r. init ck p initial = Inr r \<longrightarrow>
          current r = initial \<and> cache r (ck initial) = Some True \<and> ext_predicate r = p
          \<and> dom (cache r) = {ck initial} \<and> ext_calls r = [initial])"
  by (auto simp: init_def Let_def)

theorem init_contract_witness:
  "\<not> (\<lambda>v. v \<noteq> []) [] \<and> init bytes_code (\<lambda>v. v \<noteq> []) [] = Inl ValueError
   \<and> init bytes_code (\<lambda>v. True) [97, 98] = Inr reducer_ab
   \<and> current reducer_ab = [97, 98] \<and> cache reducer_ab (bytes_code [97, 98]) = Some True"
proof -
  have h: "\<not> (\<lambda>v::bytes. v \<noteq> []) []" by simp
  show ?thesis
    using h init_contract[of bytes_code "\<lambda>v. v \<noteq> []" "[]"]
      init_contract[of bytes_code "\<lambda>v. True" "[97, 98]"] reducer_ab_init
    by blast
qed



section \<open>Bracket pairing\<close>

lemma scan_brackets_same: "scan_brackets l l xs results stack = results"
  by (induction xs arbitrary: results stack) auto

lemma good_pair_mono: "good_pair l r T n p \<Longrightarrow> n \<le> m \<Longrightarrow> good_pair l r T m p"
  by (simp add: good_pair_def)

lemma scan_brackets_inv:
  assumes "length pre = n" and "T = pre @ xs"
    and "\<forall>p\<in>set results. good_pair l r T n p"
    and "\<forall>i\<in>set stack. i < n \<and> T ! i = l"
    and "distinct (map fst results @ stack)" and "distinct (map snd results)"
  shows "(\<forall>p\<in>set (scan_brackets l r (enumerate n xs) results stack). good_pair l r T (length T) p)
         \<and> distinct (map fst (scan_brackets l r (enumerate n xs) results stack))
         \<and> distinct (map snd (scan_brackets l r (enumerate n xs) results stack))"
  using assms
proof (induction xs arbitrary: pre n results stack)
  case Nil
  then show ?case by simp
next
  case (Cons x xs)
  have Tn: "T ! n = x" using Cons.prems(1,2) by (simp add: nth_append)
  have len: "length (pre @ [x]) = Suc n" using Cons.prems(1) by simp
  have T': "T = (pre @ [x]) @ xs" using Cons.prems(2) by simp
  have res_lt: "\<forall>p\<in>set results. good_pair l r T (Suc n) p"
    using Cons.prems(3) good_pair_mono[of l r T n _ "Suc n"] by simp
  have st_lt: "\<forall>i\<in>set stack. i < Suc n \<and> T ! i = l"
    using Cons.prems(4) less_Suc_eq by blast
  have fst_lt: "n \<notin> set (map fst results)"
  proof
    assume "n \<in> set (map fst results)"
    then obtain p where "p \<in> set results" "fst p = n" by auto
    with Cons.prems(3) show False by (auto simp: good_pair_def)
  qed
  have snd_lt: "n \<notin> set (map snd results)"
  proof
    assume "n \<in> set (map snd results)"
    then obtain p where "p \<in> set results" "snd p = n" by auto
    with Cons.prems(3) show False by (auto simp: good_pair_def)
  qed
  have st_n: "n \<notin> set stack" using Cons.prems(4) by blast
  have unf: "scan_brackets l r (enumerate n (x # xs)) results stack =
      (if x = l then scan_brackets l r (enumerate (Suc n) xs) results (stack @ [n])
       else if x = r then
         (if stack \<noteq> [] then
            scan_brackets l r (enumerate (Suc n) xs) (results @ [(last stack, n)]) (butlast stack)
          else scan_brackets l r (enumerate (Suc n) xs) results stack)
       else scan_brackets l r (enumerate (Suc n) xs) results stack)"
    by simp
  show ?case
  proof (cases "x = l")
    case True
    have a: "\<forall>i\<in>set (stack @ [n]). i < Suc n \<and> T ! i = l"
      using st_lt Tn True by simp
    have b: "distinct (map fst results @ stack @ [n])"
      using Cons.prems(5) fst_lt st_n by simp
    show ?thesis
      unfolding unf using Cons.IH[OF len T' res_lt a b Cons.prems(6)] True by simp
  next
    case xl: False
    show ?thesis
    proof (cases "x = r \<and> stack \<noteq> []")
      case False
      then show ?thesis
        unfolding unf using Cons.IH[OF len T' res_lt st_lt Cons.prems(5,6)] xl by presburger
    next
      case True
      then have ne: "stack \<noteq> []" and xr: "x = r" by simp_all
      have ls: "last stack \<in> set stack" using ne by simp
      then have lsn: "last stack < n" "T ! last stack = l" using Cons.prems(4) by blast+
      have "good_pair l r T (Suc n) (last stack, n)"
        using lsn Tn xr by (simp add: good_pair_def)
      then have a: "\<forall>p\<in>set (results @ [(last stack, n)]). good_pair l r T (Suc n) p"
        using res_lt by simp
      have b: "\<forall>i\<in>set (butlast stack). i < Suc n \<and> T ! i = l"
        using st_lt in_set_butlastD by metis
      have st: "butlast stack @ [last stack] = stack" using ne by simp
      have "distinct (map fst results @ butlast stack @ [last stack])"
        using Cons.prems(5) st by simp
      then have c: "distinct (map fst (results @ [(last stack, n)]) @ butlast stack)"
        by auto
      have d: "distinct (map snd (results @ [(last stack, n)]))"
        using Cons.prems(6) snd_lt by simp
      show ?thesis
        unfolding unf using Cons.IH[OF len T' a b c d] xl True by presburger
    qed
  qed
qed

lemma find_paired_brackets_pairs:
  "(\<forall>p\<in>set (find_paired_brackets (l, r) target). good_pair l r target (length target) p)
   \<and> distinct (map fst (find_paired_brackets (l, r) target))
   \<and> distinct (map snd (find_paired_brackets (l, r) target))"
  unfolding find_paired_brackets_def
  using scan_brackets_inv[of "[]" 0 target target "[]" l r "[]"] by simp

lemma find_paired_brackets_endpoints:
  "distinct (map fst (find_paired_brackets (l, r) target)
             @ map snd (find_paired_brackets (l, r) target))"
proof (cases "l = r")
  case True
  then show ?thesis by (simp add: find_paired_brackets_def scan_brackets_same)
next
  case False
  let ?res = "find_paired_brackets (l, r) target"
  have p: "\<forall>p\<in>set ?res. good_pair l r target (length target) p"
    and d: "distinct (map fst ?res)" "distinct (map snd ?res)"
    using find_paired_brackets_pairs[of l r target] by blast+
  have "set (map fst ?res) \<inter> set (map snd ?res) = {}"
  proof (rule ccontr)
    assume "set (map fst ?res) \<inter> set (map snd ?res) \<noteq> {}"
    then obtain k where "k \<in> fst ` set ?res" "k \<in> snd ` set ?res" by auto
    then obtain p q where pq: "p \<in> set ?res" "fst p = k" "q \<in> set ?res" "snd q = k" by auto
    with p have "target ! k = l" "target ! k = r" by (auto simp: good_pair_def)
    with False show False by simp
  qed
  with d show ?thesis by simp
qed

text \<open>
  C8. For every target and every bracket kind \<open>(left, right)\<close>, each emitted pair \<open>(i, j)\<close>
  has \<open>i < j\<close>, both inside the target, with the open byte at \<open>i\<close> and the close byte at
  \<open>j\<close>; no index is an endpoint of two emitted pairs (the list of all first and second
  components has no repetition). A close byte met with an empty stack changes neither the
  results nor the stack, and the indices still on the stack when the scan ends are not
  emitted; in particular nothing is emitted for a target without an open byte or without
  a close byte.
\<close>

theorem bracket_pairing:
  "(\<forall>(i, j)\<in>set (find_paired_brackets (left, right) target).
       i < j \<and> j < length target \<and> target ! i = left \<and> target ! j = right)
   \<and> distinct (map fst (find_paired_brackets (left, right) target)
               @ map snd (find_paired_brackets (left, right) target))
   \<and> (right \<noteq> left \<longrightarrow>
        scan_brackets left right ((k, right) # rest) results [] =
        scan_brackets left right rest results [])
   \<and> scan_brackets left right [] results stack = results
   \<and> (left \<notin> set target \<or> right \<notin> set target \<longrightarrow>
        find_paired_brackets (left, right) target = [])"
proof (intro conjI)
  let ?res = "find_paired_brackets (left, right) target"
  have gp: "\<forall>p\<in>set ?res. good_pair left right target (length target) p"
    using find_paired_brackets_pairs[of left right target] by blast
  show "\<forall>(i, j)\<in>set ?res. i < j \<and> j < length target \<and> target ! i = left \<and> target ! j = right"
  proof (clarify, intro conjI)
    fix i j assume "(i, j) \<in> set ?res"
    with gp have g: "good_pair left right target (length target) (i, j)" by blast
    from g show "i < j" by (simp add: good_pair_def)
    from g show "j < length target" by (simp add: good_pair_def)
    from g show "target ! i = left" by (simp add: good_pair_def)
    from g show "target ! j = right" by (simp add: good_pair_def)
  qed
  show "distinct (map fst ?res @ map snd ?res)"
    by (rule find_paired_brackets_endpoints)
  show "right \<noteq> left \<longrightarrow>
        scan_brackets left right ((k, right) # rest) results [] =
        scan_brackets left right rest results []"
    by simp
  show "scan_brackets left right [] results stack = results" by simp
  show "left \<notin> set target \<or> right \<notin> set target \<longrightarrow> ?res = []"
  proof
    assume a: "left \<notin> set target \<or> right \<notin> set target"
    show "?res = []"
    proof (rule ccontr)
      assume "?res \<noteq> []"
      then obtain p where "p \<in> set ?res" by (meson last_in_set)
      with gp have g: "good_pair left right target (length target) p" by blast
      then have "fst p < length target" "snd p < length target"
        "target ! fst p = left" "target ! snd p = right"
        by (simp_all add: good_pair_def)
      then have "left \<in> set target" "right \<in> set target"
        using nth_mem by metis+
      with a show False by blast
    qed
  qed
qed

theorem bracket_pairing_witness:
  "find_paired_brackets (40, 41) [40, 41, 41, 40, 40, 41] = [(0, 1), (4, 5)]
   \<and> distinct (map fst (find_paired_brackets (40, 41) [40, 41, 41, 40, 40, 41])
               @ map snd (find_paired_brackets (40, 41) [40, 41, 41, 40, 40, 41]))
   \<and> find_paired_brackets (40, 41) [41, 41] = []"
proof -
  have e: "find_paired_brackets (40, 41) [40, 41, 41, 40, 40, 41] = [(0, 1), (4, 5)]"
    by (simp add: find_paired_brackets_def)
  have h: "(40::byte) \<notin> set [41, 41] \<or> (41::byte) \<notin> set [41, 41]" by simp
  show ?thesis
    using e h bracket_pairing[of 40 41 "[40, 41, 41, 40, 40, 41]"]
      bracket_pairing[of 40 41 "[41, 41]"]
    by blast
qed

section \<open>Coverage of linear_reduce\<close>

lemma linear_reduce_break_run:
  "linear_reduce [0, 1, 2, 3, 4 :: nat] (logged (\<lambda>c. c = [1, 3, 4])) [] =
     Some (Inr ([1, 3, 4], [[1, 2, 3, 4], [2, 3, 4], [3, 4], [1, 3, 4]]))"
  by (simp add: linear_reduce_def linear_reduce_body_def find_integer_def ploop.simps
      pbind_def pret_def logged_def del_at_def Let_def)

text \<open>
  C3 fails on the code. On the input \<open>[0, 1, 2, 3, 4]\<close> with a predicate that accepts only
  \<open>[1, 3, 4]\<close>, the sweep at index \<open>0\<close> submits \<open>[1, 2, 3, 4]\<close>, \<open>[2, 3, 4]\<close> and
  \<open>[3, 4]\<close>, then the pair deletion \<open>[1, 3, 4]\<close>, which is accepted; the \<open>break\<close> that
  follows leaves the \<open>while\<close> loop and the function returns \<open>[1, 3, 4]\<close>. The elements
  \<open>3\<close> and \<open>4\<close> are in the result and in every submitted candidate: their removal
  was never considered.
\<close>

theorem linear_reduce_coverage_fails:
  "linear_reduce [0, 1, 2, 3, 4 :: nat] (logged (\<lambda>c. c = [1, 3, 4])) [] =
     Some (Inr ([1, 3, 4], [[1, 2, 3, 4], [2, 3, 4], [3, 4], [1, 3, 4]]))
   \<and> \<not> considered [[1, 2, 3, 4], [2, 3, 4], [3, 4], [1, 3, 4]] [1, 3, 4] (3 :: nat)
   \<and> \<not> considered [[1, 2, 3, 4], [2, 3, 4], [3, 4], [1, 3, 4]] [1, 3, 4] (4 :: nat)"
  using linear_reduce_break_run by (simp add: considered_def)

section \<open>Programs that return\<close>






lemma pbind_returns_eq:
  "m s = Some (Inr (a, s1)) \<Longrightarrow> pbind m k s = k a s1"
  by (simp add: pbind_def)


lemma returns_false_returns: "returns_false p \<Longrightarrow> returns p"
  unfolding returns_false_def returns_def by blast



















section \<open>reduce_by_delimiter never splits on the empty delimiter\<close>









lemma pbind_pof_Inl: "pbind (pof (Inl e)) k s = Some (Inl e)"
  by (simp add: pbind_def pof_def praise_def)








text \<open>
  The hypothesis on the cache is needed. With a fingerprint function under which
  \<open>b"ab"\<close> collides with \<open>b"a;b"\<close>, the reducer built from \<open>b"a;b"\<close> answers both attempts
  from the cache with \<open>True\<close>, leaves \<open>current\<close> alone and re-splits on the empty delimiter.
\<close>

lemma reduce_by_delimiter_collision:
  "init (\<lambda>v. 0) (\<lambda>v. True) [97, 59, 98] = Inr r \<Longrightarrow>
   reduce_by_delimiter (\<lambda>v. 0) [59] r = Some (Inl ValueError)"
  by (auto simp: init_def reduce_by_delimiter_def pbind_def pret_def praise_def pstep_def pof_def
      get_current_def py_split_def attempt_def predicate_def sort_key_bytes_def Let_def)

end
